theory Spec2Isabelle
  imports Complex_Main "HOL-Library.Word" "HOL-Library.Sublist"
begin

section \<open>Messages of the ads protocol\<close>

text \<open>
  The three protobuf messages the C++ code exchanges.  \<open>Context\<close> travels from the
  client to the server, \<open>AdsList\<close> (with its repeated \<open>Ad\<close>) from the server to the
  client.  The \<open>version\<close> of an \<open>AdsList\<close> is a \<open>uint32\<close>; a score is a C++
  \<open>double\<close>.
\<close>

datatype double = Finite real | PosInf | NegInf | NaN

record Context =
  query :: string
  asin_id :: string
  understanding :: string

record Ad =
  asin_id :: string
  ad_id :: string
  score :: double

record AdsList =
  version :: "32 word"
  ads :: "Ad list"

text \<open>A default-constructed \<open>AdsList()\<close>: every protobuf field at its default.\<close>

definition AdsList_default :: AdsList where
  "AdsList_default = \<lparr>version = 0, ads = []\<rparr>"

section \<open>Doubles: comparison, \<open>std::min\<close> and \<open>std::max\<close>\<close>

text \<open>
  Only the comparison of doubles is fixed here: \<open>operator<\<close> is false as soon as one
  side is a NaN, and orders the infinities around the finite values.  \<open>std::min(a, b)\<close>
  is \<open>(b < a) ? b : a\<close> and \<open>std::max(a, b)\<close> is \<open>(a < b) ? b : a\<close>.  The rounding
  arithmetic itself is left to the parameters of \<open>stdlib\<close> below; the literals
  \<open>0.0\<close>, \<open>1.0\<close> and \<open>1000.0\<close> are exact doubles, the literals \<open>0.7\<close> and
  \<open>0.1\<close> are whatever \<open>double_lit\<close> rounds them to.
\<close>

fun dless :: "double \<Rightarrow> double \<Rightarrow> bool" where
  "dless NaN y = False"
| "dless x NaN = False"
| "dless (Finite a) (Finite b) = (a < b)"
| "dless (Finite a) PosInf = True"
| "dless (Finite a) NegInf = False"
| "dless PosInf y = False"
| "dless NegInf NegInf = False"
| "dless NegInf y = True"

definition std_min :: "double \<Rightarrow> double \<Rightarrow> double" where
  "std_min a b = (if dless b a then b else a)"

definition std_max :: "double \<Rightarrow> double \<Rightarrow> double" where
  "std_max a b = (if dless a b then b else a)"

fun dneg :: "double \<Rightarrow> double" where
  "dneg (Finite a) = Finite (- a)"
| "dneg PosInf = NegInf"
| "dneg NegInf = PosInf"
| "dneg NaN = NaN"

section \<open>The parts of the C++ standard library the generator calls\<close>

text \<open>
  \<open>std::hash<std::string>\<close>, \<open>std::mt19937\<close>, the two distributions and the double
  arithmetic are implementation-defined library code, so they are parameters of the
  model.  \<open>'g\<close> is the state of the Mersenne twister; a distribution reads the state
  and returns the drawn value with the advanced state.  \<open>size_t\<close> is 64 bits wide.
\<close>

record 'g stdlib =
  hasher :: "string \<Rightarrow> 64 word"
  mt19937 :: "64 word \<Rightarrow> 'g"
  uniform_int_distribution :: "int \<Rightarrow> int \<Rightarrow> 'g \<Rightarrow> int \<times> 'g"
  uniform_real_distribution :: "double \<Rightarrow> double \<Rightarrow> 'g \<Rightarrow> double \<times> 'g"
  double_lit :: "real \<Rightarrow> double"
  double_of_size :: "64 word \<Rightarrow> double"
  double_of_int :: "int \<Rightarrow> double"
  dadd :: "double \<Rightarrow> double \<Rightarrow> double"
  dmul :: "double \<Rightarrow> double \<Rightarrow> double"
  ddiv :: "double \<Rightarrow> double \<Rightarrow> double"

section \<open>Decimal output: \<open>std::to_string\<close> and \<open>setw\<close>/\<open>setfill\<close>\<close>

definition digit_char :: "nat \<Rightarrow> char" where
  "digit_char d = char_of (48 + d)"

fun dec_digits :: "nat \<Rightarrow> string" where
  "dec_digits n = (if n < 10 then [digit_char n]
                   else dec_digits (n div 10) @ [digit_char (n mod 10)])"

declare dec_digits.simps [simp del]

definition to_string :: "int \<Rightarrow> string" where
  "to_string i = (if i < 0 then CHR ''-'' # dec_digits (nat (- i)) else dec_digits (nat i))"

text \<open>\<open>os << std::setfill('0') << std::setw(w) << n\<close> for an unsigned \<open>n\<close>.\<close>

definition setw_fill0 :: "nat \<Rightarrow> nat \<Rightarrow> string" where
  "setw_fill0 w n = replicate (w - length (dec_digits n)) CHR ''0'' @ dec_digits n"

section \<open>\<open>AdGenerator\<close> (ad_generator.cpp)\<close>

definition calculateScore ::
  "'g stdlib \<Rightarrow> string \<Rightarrow> string \<Rightarrow> string \<Rightarrow> int \<Rightarrow> double" where
  "calculateScore L q a u v =
     (let base_score = ddiv L (double_of_size L (hasher L (q @ a) mod 1000))
                              (Finite 1000);
          understanding_boost =
            (if u \<noteq> [] then ddiv L (double_of_size L (hasher L u mod 200)) (Finite 1000)
             else Finite 0);
          version_multiplier =
            dadd L (double_lit L (7 / 10)) (dmul L (double_of_int L v) (double_lit L (1 / 10)));
          final_score = dmul L (dadd L base_score understanding_boost) version_multiplier
      in std_max (Finite 0) (std_min (Finite 1) final_score))"

definition generateAdId :: "'g stdlib \<Rightarrow> string \<Rightarrow> int \<Rightarrow> string" where
  "generateAdId L a index =
     (let hash_value = hasher L (a @ to_string index)
      in ''AD'' @ setw_fill0 8 (unat (hash_value mod 100000000)))"

text \<open>
  The body of the \<open>for (int i = 0; i < num_ads; i++)\<close> loop builds one \<open>Ad\<close> and
  advances the twister by the draw of \<open>score_variation\<close>.
\<close>

definition make_ad ::
  "'g stdlib \<Rightarrow> ('c) Context_scheme \<Rightarrow> int \<Rightarrow> int \<Rightarrow> 'g \<Rightarrow> Ad \<times> 'g" where
  "make_ad L c v i gen =
     (let asin = ''B'' @ setw_fill0 6
                   (unat (hasher L (Context.asin_id c @ to_string i) mod 1000000));
          adid = generateAdId L asin i;
          score0 = calculateScore L (query c) (Context.asin_id c) (understanding c) v;
          (variation, gen') =
             uniform_real_distribution L (dneg (double_lit L (1 / 10))) (double_lit L (1 / 10)) gen;
          score1 = dadd L score0 variation;
          score2 = std_max (Finite 0) (std_min (Finite 1) score1)
      in (\<lparr>asin_id = asin, ad_id = adid, score = score2\<rparr>, gen'))"

function ads_loop ::
  "'g stdlib \<Rightarrow> ('c) Context_scheme \<Rightarrow> int \<Rightarrow> int \<Rightarrow> int \<Rightarrow> 'g \<Rightarrow> Ad list" where
  "ads_loop L c v num_ads i gen =
     (if i < num_ads
      then fst (make_ad L c v i gen) # ads_loop L c v num_ads (i + 1) (snd (make_ad L c v i gen))
      else [])"
  by pat_completeness auto
termination
  by (relation "measure (\<lambda>(L, c, v, num_ads, i, gen). nat (num_ads - i))") auto

declare ads_loop.simps [simp del]

definition generateAds :: "'g stdlib \<Rightarrow> ('c) Context_scheme \<Rightarrow> int \<Rightarrow> AdsList" where
  "generateAds L c v =
     (let seed = hasher L (query c @ Context.asin_id c @ to_string v);
          gen = mt19937 L seed;
          (num_ads, gen') = uniform_int_distribution L 5 10 gen
      in \<lparr>version = word_of_int v, ads = ads_loop L c v num_ads 0 gen'\<rparr>)"

section \<open>The two directions of a gRPC stream\<close>

text \<open>
  The write direction of a \<open>ClientReaderWriter\<close> or \<open>ServerReaderWriter\<close>.  Whether the
  transport accepts the \<open>k\<close>-th \<open>Write\<close> of the call is the environment's choice
  \<open>accepts k\<close>; \<open>written\<close> logs every \<open>Write\<close> call in order with the \<open>bool\<close> it
  returned, and \<open>half_closed\<close> records a call of \<open>WritesDone\<close>.
\<close>

record 'm writer =
  accepts :: "nat \<Rightarrow> bool"
  written :: "('m \<times> bool) list"
  half_closed :: bool

definition new_writer :: "(nat \<Rightarrow> bool) \<Rightarrow> 'm writer" where
  "new_writer f = \<lparr>accepts = f, written = [], half_closed = False\<rparr>"

definition Write :: "'m \<Rightarrow> 'm writer \<Rightarrow> bool \<times> 'm writer" where
  "Write m w =
     (let ok = accepts w (length (written w))
      in (ok, w\<lparr>written := written w @ [(m, ok)]\<rparr>))"

definition WritesDone :: "'m writer \<Rightarrow> 'm writer" where
  "WritesDone w = w\<lparr>half_closed := True\<rparr>"

text \<open>The messages handed to \<open>Write\<close>, and those of them the transport accepted.\<close>

definition attempted :: "'m writer \<Rightarrow> 'm list" where
  "attempted w = map fst (written w)"

definition delivered :: "'m writer \<Rightarrow> 'm list" where
  "delivered w = map fst (filter snd (written w))"

section \<open>\<open>AdsClient::sendContextMessages\<close> (ads_client.cpp)\<close>

text \<open>
  The sender returns early at the first \<open>Write\<close> that yields \<open>false\<close>; the 50 ms sleep
  between the two writes changes no state of the model.
\<close>

definition sendContextMessages ::
  "Context writer \<Rightarrow> string \<Rightarrow> string \<Rightarrow> string \<Rightarrow> Context writer" where
  "sendContextMessages stream q a u =
     (let context1 = \<lparr>query = q, asin_id = a, understanding = []\<rparr>;
          (ok1, s1) = Write context1 stream
      in if \<not> ok1 then s1
         else
           let context2 = \<lparr>query = q, asin_id = a, understanding = u\<rparr>;
               (ok2, s2) = Write context2 s1
           in if \<not> ok2 then s2 else WritesDone s2)"

section \<open>\<open>AdsClient::receiveAdsListWithTimeout\<close> (ads_client.cpp)\<close>

text \<open>
  \<open>std::map<uint32_t, AdsList>\<close> is an ordered map: a list of entries kept in
  increasing key order.  \<open>map_assign k v\<close> is \<open>buffer[k] = v\<close>, and \<open>rbegin()\<close> is the
  last entry of the list.
\<close>

fun map_assign :: "'k::linorder \<Rightarrow> 'v \<Rightarrow> ('k \<times> 'v) list \<Rightarrow> ('k \<times> 'v) list" where
  "map_assign k v [] = [(k, v)]"
| "map_assign k v ((k', v') # es) =
     (if k < k' then (k, v) # (k', v') # es
      else if k = k' then (k, v) # es
      else (k', v') # map_assign k v es)"

text \<open>
  The read direction seen by the collector is the list of the messages the stream will
  deliver, each with the time (in ms of the steady clock) at which it arrives, and the
  time \<open>closes\<close> at which the stream ends after them.  A blocking \<open>Read\<close> issued at time
  \<open>now\<close> returns at \<open>max now t\<close> with the next message, or at \<open>max now closes\<close> with
  \<open>false\<close> when none is left.  The deadline is tested only at the top of the loop, before
  the next \<open>Read\<close> is issued.
\<close>

record collector =
  adsListBuffer :: "(32 word \<times> AdsList) list"
  currentAdsList :: AdsList
  clock :: nat

fun receive_loop ::
  "int \<Rightarrow> nat \<Rightarrow> collector \<Rightarrow> (nat \<times> AdsList) list \<Rightarrow> nat
     \<Rightarrow> collector \<times> (nat \<times> AdsList) list" where
  "receive_loop timeoutMs startTime st [] closes =
     (if timeoutMs \<le> int (clock st - startTime) then (st, [])
      else (st\<lparr>clock := max (clock st) closes\<rparr>, []))"
| "receive_loop timeoutMs startTime st ((t, adsList) # rest) closes =
     (if timeoutMs \<le> int (clock st - startTime) then (st, (t, adsList) # rest)
      else receive_loop timeoutMs startTime
             \<lparr>adsListBuffer = map_assign (version adsList) adsList (adsListBuffer st),
              currentAdsList = adsList,
              clock = max (clock st) t\<rparr>
             rest closes)"

definition collect ::
  "int \<Rightarrow> nat \<Rightarrow> (nat \<times> AdsList) list \<Rightarrow> nat \<Rightarrow> collector \<times> (nat \<times> AdsList) list" where
  "collect timeoutMs startTime stream closes =
     receive_loop timeoutMs startTime
       \<lparr>adsListBuffer = [], currentAdsList = AdsList_default, clock = startTime\<rparr>
       stream closes"

text \<open>
  \<open>timeoutMs\<close> is the value \<open>generateRandomTimeout()\<close> drew from \<open>std::random_device\<close>
  for this call.
\<close>

definition receiveAdsListWithTimeout ::
  "int \<Rightarrow> nat \<Rightarrow> (nat \<times> AdsList) list \<Rightarrow> nat \<Rightarrow> AdsList" where
  "receiveAdsListWithTimeout timeoutMs startTime stream closes =
     (let st = fst (collect timeoutMs startTime stream closes)
      in if adsListBuffer st \<noteq> [] then snd (last (adsListBuffer st))
         else AdsList_default)"

text \<open>
  The invariant of the collector's loop, relative to the list \<open>consumed\<close> of the
  messages read so far: the buffer is strictly increasing in its keys; each entry is
  filed under its own version and holds a message that was read, which arrived no later
  than the current clock; and every version read has an entry.
\<close>

definition buffer_inv :: "collector \<Rightarrow> (nat \<times> AdsList) list \<Rightarrow> bool" where
  "buffer_inv st consumed \<longleftrightarrow>
     sorted_wrt (<) (map fst (adsListBuffer st))
     \<and> (\<forall>e \<in> set (adsListBuffer st).
           fst e = version (snd e) \<and> (\<exists>t. (t, snd e) \<in> set consumed \<and> t \<le> clock st))
     \<and> (\<forall>a \<in> set consumed. version (snd a) \<in> fst ` set (adsListBuffer st))"

section \<open>\<open>AdsServiceImpl::GetAds\<close> (ads_service_impl.cpp)\<close>

datatype Status = OK | INTERNAL string

text \<open>
  The handler wraps each generation in \<open>try\<close>/\<open>catch (const std::exception&)\<close>.  Whether
  the generation of version \<open>v\<close> throws is the environment's choice \<open>throws v\<close>.
\<close>

definition try_generateAds ::
  "(int \<Rightarrow> bool) \<Rightarrow> 'g stdlib \<Rightarrow> Context \<Rightarrow> int \<Rightarrow> string + AdsList" where
  "try_generateAds throws L c v =
     (if throws v then Inl ''std::exception'' else Inr (generateAds L c v))"

text \<open>
  The \<open>while (stream->Read(&client_context))\<close> loop over the Contexts the stream
  delivers; \<open>Read\<close> yields \<open>false\<close> when the list is exhausted.  The result is the
  status of a \<open>return\<close> taken inside the loop (if any), the Context captured by the
  detached version-3 thread (if it was started), and the stream.  The value
  \<open>Write\<close> returns is dropped, as in the source.
\<close>

fun read_loop ::
  "(int \<Rightarrow> bool) \<Rightarrow> 'g stdlib \<Rightarrow> int \<Rightarrow> Context list \<Rightarrow> AdsList writer
     \<Rightarrow> Status option \<times> Context option \<times> AdsList writer" where
  "read_loop throws L context_count [] stream = (None, None, stream)"
| "read_loop throws L context_count (client_context # rest) stream =
     (let context_count = context_count + 1
      in if context_count = 1 then
           (case try_generateAds throws L client_context 1 of
              Inl e \<Rightarrow> (Some (INTERNAL ''Error processing context''), None, stream)
            | Inr ads_v1 \<Rightarrow>
                read_loop throws L context_count rest (snd (Write ads_v1 stream)))
         else if context_count = 2 then
           (case try_generateAds throws L client_context 2 of
              Inl e \<Rightarrow> (Some (INTERNAL ''Error processing context''), None, stream)
            | Inr ads_v2 \<Rightarrow> (None, Some client_context, snd (Write ads_v2 stream)))
         else read_loop throws L context_count rest stream)"

text \<open>The body of the detached thread: generate version 3 and write it; an exception is only logged.\<close>

definition version3_thread ::
  "(int \<Rightarrow> bool) \<Rightarrow> 'g stdlib \<Rightarrow> Context \<Rightarrow> AdsList writer \<Rightarrow> AdsList writer" where
  "version3_thread throws L client_context stream =
     (case try_generateAds throws L client_context 3 of
        Inl e \<Rightarrow> stream
      | Inr ads_v3 \<Rightarrow> snd (Write ads_v3 stream))"

text \<open>
  One session: the handler, then the detached thread where one was started.  The thread
  is created after the \<open>Write\<close> of version 2 has returned, and the handler writes nothing
  after the \<open>break\<close>, so the writes of a session happen in this order.  The handler
  sleeps 60 ms before it returns and the thread 50 ms before it writes; the stream is
  taken to be alive at the thread's \<open>Write\<close>.
\<close>

definition GetAds ::
  "(int \<Rightarrow> bool) \<Rightarrow> 'g stdlib \<Rightarrow> Context list \<Rightarrow> AdsList writer \<Rightarrow> Status \<times> AdsList writer" where
  "GetAds throws L incoming stream =
     (case read_loop throws L 0 incoming stream of
        (ret, task, s) \<Rightarrow>
          ((case ret of Some st \<Rightarrow> st | None \<Rightarrow> OK),
           (case task of None \<Rightarrow> s | Some c \<Rightarrow> version3_thread throws L c s)))"

section \<open>A concrete standard library, for evaluating the model\<close>

text \<open>
  One possible library: the hash of a string is a polynomial in its bytes, the twister
  state is a counter, and the double arithmetic is exact on finite values.
\<close>

fun exact2 :: "(real \<Rightarrow> real \<Rightarrow> real) \<Rightarrow> double \<Rightarrow> double \<Rightarrow> double" where
  "exact2 f (Finite a) (Finite b) = Finite (f a b)"
| "exact2 f x y = NaN"

definition poly_hash :: "string \<Rightarrow> 64 word" where
  "poly_hash s = foldl (\<lambda>h c. 31 * h + of_char c) 7 s"

definition demo_lib :: "nat stdlib" where
  "demo_lib =
     \<lparr>hasher = poly_hash,
      mt19937 = unat,
      uniform_int_distribution = (\<lambda>a b g. (a + int g mod (b - a + 1), Suc g)),
      uniform_real_distribution =
        (\<lambda>lo hi g. (if even g then std_max lo (Finite (- (1 / 20))) else std_min hi (Finite (1 / 20)),
                    Suc g)),
      double_lit = Finite,
      double_of_size = (\<lambda>w. Finite (real (unat w))),
      double_of_int = (\<lambda>i. Finite (real_of_int i)),
      dadd = exact2 (+),
      dmul = exact2 (*),
      ddiv = exact2 (/)\<rparr>"

text \<open>Two requests that differ only in the understanding, and three environments.\<close>

definition coffee_plain :: Context where
  "coffee_plain = \<lparr>query = ''coffee'', asin_id = ''B01'', understanding = []\<rparr>"

definition coffee_beans :: Context where
  "coffee_beans = \<lparr>query = ''coffee'', asin_id = ''B01'', understanding = ''beans''\<rparr>"

definition no_throw :: "int \<Rightarrow> bool" where
  "no_throw v = False"

definition all_accepted :: "nat \<Rightarrow> bool" where
  "all_accepted k = True"

definition first_rejected :: "nat \<Rightarrow> bool" where
  "first_rejected k = (k \<noteq> 0)"

definition second_rejected :: "nat \<Rightarrow> bool" where
  "second_rejected k = (k \<noteq> 1)"

section \<open>The generator: facts about the loop\<close>

lemma clamp_unit: "\<exists>r. std_max (Finite 0) (std_min (Finite 1) x) = Finite r \<and> 0 \<le> r \<and> r \<le> 1"
  by (cases x) (auto simp: std_max_def std_min_def)

lemma score_make_ad:
  "\<exists>r. score (fst (make_ad L c v i gen)) = Finite r \<and> 0 \<le> r \<and> r \<le> 1"
  using clamp_unit by (simp add: make_ad_def Let_def split: prod.split)

lemma length_ads_loop: "length (ads_loop L c v num_ads i gen) = nat (num_ads - i)"
proof (induction L c v num_ads i gen rule: ads_loop.induct)
  case (1 L c v num_ads i gen)
  show ?case
  proof (cases "i < num_ads")
    case True
    then have "nat (num_ads - i) = Suc (nat (num_ads - (i + 1)))" by simp
    with True "1.IH" show ?thesis by (simp add: ads_loop.simps [of L c v num_ads i gen])
  next
    case False
    then show ?thesis by (simp add: ads_loop.simps [of L c v num_ads i gen])
  qed
qed

lemma score_ads_loop:
  "ad \<in> set (ads_loop L c v num_ads i gen) \<Longrightarrow> \<exists>r. score ad = Finite r \<and> 0 \<le> r \<and> r \<le> 1"
proof (induction L c v num_ads i gen rule: ads_loop.induct)
  case (1 L c v num_ads i gen)
  show ?case
  proof (cases "i < num_ads")
    case True
    with "1.prems" have "ad = fst (make_ad L c v i gen)
        \<or> ad \<in> set (ads_loop L c v num_ads (i + 1) (snd (make_ad L c v i gen)))"
      by (simp add: ads_loop.simps [of L c v num_ads i gen])
    then show ?thesis
      using "1.IH" [OF True] score_make_ad [of L c v i gen] by blast
  next
    case False
    with "1.prems" show ?thesis by (simp add: ads_loop.simps [of L c v num_ads i gen])
  qed
qed

lemma ads_generateAds:
  "ads (generateAds L c v) =
     ads_loop L c v
       (fst (uniform_int_distribution L 5 10
               (mt19937 L (hasher L (query c @ Context.asin_id c @ to_string v))))) 0
       (snd (uniform_int_distribution L 5 10
               (mt19937 L (hasher L (query c @ Context.asin_id c @ to_string v)))))"
  by (simp add: generateAds_def Let_def split: prod.split)

lemma version_generateAds: "version (generateAds L c v) = word_of_int v"
  by (simp add: generateAds_def Let_def split: prod.split)

lemma ids_make_ad:
  "Context.asin_id c = Context.asin_id c' \<Longrightarrow>
   Ad.asin_id (fst (make_ad L c v i gen)) = Ad.asin_id (fst (make_ad L c' v i gen'))
   \<and> ad_id (fst (make_ad L c v i gen)) = ad_id (fst (make_ad L c' v i gen'))"
  by (simp add: make_ad_def Let_def split: prod.split)

lemma ids_ads_loop:
  "Context.asin_id c = Context.asin_id c' \<Longrightarrow>
   map Ad.asin_id (ads_loop L c v num_ads i gen) = map Ad.asin_id (ads_loop L c' v num_ads i gen')
   \<and> map ad_id (ads_loop L c v num_ads i gen) = map ad_id (ads_loop L c' v num_ads i gen')"
proof (induction L c v num_ads i gen arbitrary: gen' rule: ads_loop.induct)
  case (1 L c v num_ads i gen)
  show ?case
  proof (cases "i < num_ads")
    case True
    from "1.IH" [OF True "1.prems", of "snd (make_ad L c' v i gen')"]
      ids_make_ad [OF "1.prems", of L v i gen gen'] True
    show ?thesis
      by (simp add: ads_loop.simps [of L c v num_ads i gen] ads_loop.simps [of L c' v num_ads i gen'])
  next
    case False
    then show ?thesis
      by (simp add: ads_loop.simps [of L c v num_ads i gen] ads_loop.simps [of L c' v num_ads i gen'])
  qed
qed

lemma demo_count:
  "5 \<le> fst (uniform_int_distribution demo_lib 5 10 g) \<and> fst (uniform_int_distribution demo_lib 5 10 g) \<le> 10"
proof -
  have "0 \<le> int g mod 6" and "int g mod 6 < 6" by simp_all
  then show ?thesis by (simp add: demo_lib_def)
qed

lemma hd_ads_loop:
  "i < n \<Longrightarrow> hd (ads_loop L c v n i g) = fst (make_ad L c v i g)"
  by (simp add: ads_loop.simps [of L c v n i g])

lemma score_make_ad_eq:
  "score (fst (make_ad L c v i g)) =
     std_max (Finite 0) (std_min (Finite 1)
       (dadd L (calculateScore L (query c) (Context.asin_id c) (understanding c) v)
          (fst (uniform_real_distribution L (dneg (double_lit L (1 / 10))) (double_lit L (1 / 10)) g))))"
  by (simp add: make_ad_def Let_def split: prod.split)

lemma demo_first_scores_differ:
  "score (fst (make_ad demo_lib coffee_beans 1 0 g)) \<noteq> score (fst (make_ad demo_lib coffee_plain 1 0 g))"
proof -
  have s1: "calculateScore demo_lib ''coffee'' ''B01'' ''beans'' 1 = Finite (82 / 625)"
    by (simp add: calculateScore_def demo_lib_def poly_hash_def std_max_def std_min_def)
  have s0: "calculateScore demo_lib ''coffee'' ''B01'' [] 1 = Finite (8 / 625)"
    by (simp add: calculateScore_def demo_lib_def poly_hash_def std_max_def std_min_def)
  have v: "fst (uniform_real_distribution demo_lib (dneg (double_lit demo_lib (1 / 10)))
                  (double_lit demo_lib (1 / 10)) g)
           = (if even g then Finite (- (1 / 20)) else Finite (1 / 20))"
    by (simp add: demo_lib_def std_max_def std_min_def)
  have d: "dadd demo_lib = exact2 (+)" by (simp add: demo_lib_def)
  show ?thesis
    by (cases "even g")
       (simp_all add: score_make_ad_eq coffee_beans_def coffee_plain_def s1 s0 v d
          std_max_def std_min_def)
qed

lemma demo_generateAds_differ:
  "generateAds demo_lib coffee_beans 1 \<noteq> generateAds demo_lib coffee_plain 1"
proof
  assume eq: "generateAds demo_lib coffee_beans 1 = generateAds demo_lib coffee_plain 1"
  let ?U = "uniform_int_distribution demo_lib 5 10
      (mt19937 demo_lib (hasher demo_lib (''coffee'' @ ''B01'' @ to_string 1)))"
  have pos: "0 < fst ?U" using demo_count [of "mt19937 demo_lib (hasher demo_lib (''coffee'' @ ''B01'' @ to_string 1))"] by linarith
  from eq have "ads (generateAds demo_lib coffee_beans 1) = ads (generateAds demo_lib coffee_plain 1)"
    by simp
  then have "ads_loop demo_lib coffee_beans 1 (fst ?U) 0 (snd ?U)
             = ads_loop demo_lib coffee_plain 1 (fst ?U) 0 (snd ?U)"
    by (simp add: ads_generateAds coffee_beans_def coffee_plain_def)
  then have "hd (ads_loop demo_lib coffee_beans 1 (fst ?U) 0 (snd ?U))
             = hd (ads_loop demo_lib coffee_plain 1 (fst ?U) 0 (snd ?U))"
    by simp
  then have "fst (make_ad demo_lib coffee_beans 1 0 (snd ?U))
             = fst (make_ad demo_lib coffee_plain 1 0 (snd ?U))"
    by (simp only: hd_ads_loop [OF pos])
  with demo_first_scores_differ [of "snd ?U"] show False by simp
qed

section \<open>The collector: the ordered map and the loop invariant\<close>

lemma buffer_inv_sorted: "buffer_inv st consumed \<Longrightarrow> sorted_wrt (<) (map fst (adsListBuffer st))"
  unfolding buffer_inv_def by blast

lemma buffer_inv_entries:
  "buffer_inv st consumed \<Longrightarrow>
     \<forall>e \<in> set (adsListBuffer st).
        fst e = version (snd e) \<and> (\<exists>t. (t, snd e) \<in> set consumed \<and> t \<le> clock st)"
  unfolding buffer_inv_def by blast

lemma buffer_inv_keys:
  "buffer_inv st consumed \<Longrightarrow> \<forall>a \<in> set consumed. version (snd a) \<in> fst ` set (adsListBuffer st)"
  unfolding buffer_inv_def by blast

lemma buffer_invI:
  "sorted_wrt (<) (map fst (adsListBuffer st)) \<Longrightarrow>
   \<forall>e \<in> set (adsListBuffer st).
        fst e = version (snd e) \<and> (\<exists>t. (t, snd e) \<in> set consumed \<and> t \<le> clock st) \<Longrightarrow>
   \<forall>a \<in> set consumed. version (snd a) \<in> fst ` set (adsListBuffer st) \<Longrightarrow>
   buffer_inv st consumed"
  unfolding buffer_inv_def by blast

lemma set_map_assign: "set (map_assign k v b) \<subseteq> insert (k, v) (set b)"
  by (induction b) (auto split: if_splits)

lemma in_map_assign: "(k, v) \<in> set (map_assign k v b)"
  by (induction b) auto

lemma keys_map_assign: "fst ` set (map_assign k v b) = insert k (fst ` set b)"
proof (induction b)
  case Nil
  then show ?case by simp
next
  case (Cons e es)
  obtain k' v' where e: "e = (k', v')" by (cases e)
  show ?case
    using Cons.IH by (cases "k < k'"; cases "k = k'") (simp_all add: e insert_commute)
qed

lemma sorted_map_assign:
  "sorted_wrt (<) (map fst b) \<Longrightarrow> sorted_wrt (<) (map fst (map_assign k v b))"
proof (induction b)
  case Nil
  then show ?case by simp
next
  case (Cons e es)
  obtain k' v' where e: "e = (k', v')" by (cases e)
  from Cons.prems have tail: "sorted_wrt (<) (map fst es)" and hd: "\<forall>x \<in> set es. k' < fst x"
    by (auto simp: e)
  show ?case
  proof (cases "k < k'")
    case True
    with Cons.prems hd show ?thesis by (auto simp: e)
  next
    case False
    show ?thesis
    proof (cases "k = k'")
      case True
      with Cons.prems show ?thesis by (auto simp: e)
    next
      case ne: False
      with False have lt: "k' < k" by simp
      have "\<forall>x \<in> set (map_assign k v es). k' < fst x"
        using set_map_assign [of k v es] hd lt by auto
      with Cons.IH [OF tail] False ne show ?thesis by (simp add: e)
    qed
  qed
qed

lemma last_is_max:
  fixes b :: "('k::linorder \<times> 'v) list"
  shows "sorted_wrt (<) (map fst b) \<Longrightarrow> e \<in> set b \<Longrightarrow> fst e \<le> fst (last b)"
proof (induction b)
  case Nil
  then show ?case by simp
next
  case (Cons x xs)
  show ?case
  proof (cases "xs = []")
    case True
    with Cons.prems show ?thesis by simp
  next
    case False
    then have l: "last (x # xs) = last xs" by simp
    from Cons.prems have s: "sorted_wrt (<) (map fst xs)" by simp
    show ?thesis
    proof (cases "e = x")
      case True
      have "last xs \<in> set xs" using False by simp
      with Cons.prems(1) have "fst x < fst (last xs)" by auto
      with True l show ?thesis by simp
    next
      case False
      with Cons.prems have "e \<in> set xs" by simp
      from Cons.IH [OF s this] l show ?thesis by simp
    qed
  qed
qed

lemma buffer_inv_step:
  assumes "buffer_inv st pre"
  shows "buffer_inv \<lparr>adsListBuffer = map_assign (version m) m (adsListBuffer st),
                     currentAdsList = m, clock = max (clock st) t\<rparr> (pre @ [(t, m)])"
proof -
  let ?b = "adsListBuffer st" and ?b' = "map_assign (version m) m (adsListBuffer st)"
  note s = buffer_inv_sorted [OF assms] and e = buffer_inv_entries [OF assms]
    and a = buffer_inv_keys [OF assms]
  have 1: "sorted_wrt (<) (map fst ?b')" using s by (rule sorted_map_assign)
  have 2: "fst x = version (snd x)
           \<and> (\<exists>t'. (t', snd x) \<in> set (pre @ [(t, m)]) \<and> t' \<le> max (clock st) t)"
    if "x \<in> set ?b'" for x
  proof (cases "x = (version m, m)")
    case True
    then show ?thesis by auto
  next
    case False
    with that set_map_assign [of "version m" m ?b] have "x \<in> set ?b" by auto
    with e obtain t' where "fst x = version (snd x)" "(t', snd x) \<in> set pre" "t' \<le> clock st"
      by blast
    then show ?thesis by auto
  qed
  have 3: "version (snd y) \<in> fst ` set ?b'" if "y \<in> set (pre @ [(t, m)])" for y
    using that a by (auto simp: keys_map_assign)
  show ?thesis
    by (rule buffer_invI) (use 1 2 3 in simp_all)
qed

lemma buffer_inv_clock:
  assumes "buffer_inv st pre"
  shows "buffer_inv (st\<lparr>clock := max (clock st) c\<rparr>) pre"
proof -
  let ?b = "adsListBuffer st"
  note s = buffer_inv_sorted [OF assms] and e = buffer_inv_entries [OF assms]
    and a = buffer_inv_keys [OF assms]
  have e': "\<forall>e \<in> set ?b. fst e = version (snd e)
              \<and> (\<exists>t. (t, snd e) \<in> set pre \<and> t \<le> max (clock st) c)"
    using e by (meson max.coboundedI1)
  show ?thesis
    by (rule buffer_invI) (use s e' a in simp_all)
qed

lemma receive_loop_inv:
  "receive_loop timeoutMs startTime st0 stream closes = (st, rest) \<Longrightarrow> buffer_inv st0 pre \<Longrightarrow>
     \<exists>consumed. stream = consumed @ rest \<and> buffer_inv st (pre @ consumed)"
proof (induction stream arbitrary: st0 pre)
  case Nil
  then show ?case by (auto split: if_splits intro: buffer_inv_clock)
next
  case (Cons a stream)
  obtain t m where a: "a = (t, m)" by (cases a)
  show ?case
  proof (cases "timeoutMs \<le> int (clock st0 - startTime)")
    case True
    with Cons.prems show ?thesis by (simp add: a)
  next
    case False
    let ?st1 = "\<lparr>adsListBuffer = map_assign (version m) m (adsListBuffer st0),
                 currentAdsList = m, clock = max (clock st0) t\<rparr>"
    from False Cons.prems(1)
    have run: "receive_loop timeoutMs startTime ?st1 stream closes = (st, rest)"
      by (simp add: a)
    have inv: "buffer_inv ?st1 (pre @ [(t, m)])"
      using Cons.prems(2) by (rule buffer_inv_step)
    from Cons.IH [OF run inv] obtain consumed where
      "stream = consumed @ rest" "buffer_inv st ((pre @ [(t, m)]) @ consumed)" by blast
    then have "a # stream = ((t, m) # consumed) @ rest \<and> buffer_inv st (pre @ ((t, m) # consumed))"
      by (simp add: a)
    then show ?thesis by blast
  qed
qed

lemma map_assign_not_Nil: "map_assign k v b \<noteq> []"
  by (cases b) (auto split: if_splits)

lemma receive_loop_keeps_entries:
  "adsListBuffer st0 \<noteq> [] \<Longrightarrow>
     adsListBuffer (fst (receive_loop timeoutMs startTime st0 stream closes)) \<noteq> []"
proof (induction stream arbitrary: st0)
  case Nil
  then show ?case by simp
next
  case (Cons a stream)
  obtain t m where a: "a = (t, m)" by (cases a)
  show ?case
  proof (cases "timeoutMs \<le> int (clock st0 - startTime)")
    case True
    with Cons.prems show ?thesis by (simp add: a)
  next
    case False
    have "adsListBuffer \<lparr>adsListBuffer = map_assign (version m) m (adsListBuffer st0),
              currentAdsList = m, clock = max (clock st0) t\<rparr> \<noteq> []"
      by (simp add: map_assign_not_Nil)
    from Cons.IH [OF this] False show ?thesis by (simp add: a)
  qed
qed

lemma collect_empty_iff:
  "adsListBuffer (fst (collect timeoutMs startTime stream closes)) = []
     \<longleftrightarrow> stream = [] \<or> timeoutMs \<le> 0"
proof (cases stream)
  case Nil
  then show ?thesis by (simp add: collect_def)
next
  case (Cons a rest)
  obtain t m where a: "a = (t, m)" by (cases a)
  show ?thesis
    using receive_loop_keeps_entries [of
        "\<lparr>adsListBuffer = map_assign (version m) m [], currentAdsList = m, clock = max startTime t\<rparr>"
        timeoutMs startTime rest closes]
    by (simp add: collect_def Cons a)
qed

lemma map_assign_twice: "map_assign k v' (map_assign k v b) = map_assign k v' b"
  by (induction b) auto

lemma map_of_map_assign: "map_of (map_assign k v b) = (map_of b)(k \<mapsto> v)"
  by (induction b) (auto simp: fun_upd_twist)

section \<open>The sender and the server handler: what is written\<close>

lemma written_GetAds:
  "written (snd (GetAds throws L incoming (new_writer f))) =
     (case incoming of
        [] \<Rightarrow> []
      | c1 # rest \<Rightarrow>
          if throws 1 then []
          else (generateAds L c1 1, f 0) #
            (case rest of
               [] \<Rightarrow> []
             | c2 # others \<Rightarrow>
                 if throws 2 then []
                 else (generateAds L c2 2, f 1) #
                   (if throws 3 then [] else [(generateAds L c2 3, f 2)])))"
proof (cases incoming)
  case Nil
  then show ?thesis by (simp add: GetAds_def new_writer_def)
next
  case (Cons c1 rest)
  show ?thesis
  proof (cases rest)
    case Nil
    with Cons show ?thesis
      by (simp add: GetAds_def new_writer_def try_generateAds_def Write_def Let_def)
  next
    case (Cons c2 others)
    with \<open>incoming = c1 # rest\<close> show ?thesis
      by (simp add: GetAds_def new_writer_def try_generateAds_def Write_def version3_thread_def
            Let_def numeral_2_eq_2)
  qed
qed

lemma subseq_delivered: "subseq (delivered w) (attempted w)"
  by (simp add: delivered_def attempted_def subseq_map)

lemma written_sendContextMessages:
  "written (sendContextMessages (new_writer f) q a u) =
     (if \<not> f 0 then [(\<lparr>query = q, asin_id = a, understanding = []\<rparr>, False)]
      else [(\<lparr>query = q, asin_id = a, understanding = []\<rparr>, True),
            (\<lparr>query = q, asin_id = a, understanding = u\<rparr>, f 1)])"
  by (simp add: sendContextMessages_def new_writer_def Write_def WritesDone_def Let_def)

lemma half_closed_sendContextMessages:
  "half_closed (sendContextMessages (new_writer f) q a u) \<longleftrightarrow> f 0 \<and> f 1"
  by (simp add: sendContextMessages_def new_writer_def Write_def WritesDone_def Let_def)

section \<open>Claims about the timed collector\<close>

text \<open>
  What the selection does hold to: when the collector stops with a non-empty buffer, the
  \<open>AdsList\<close> it returns is the buffer entry with the greatest version key.  No key of the
  buffer and no version read during the run exceeds its version, whatever the order of
  arrival; the returned message is one of those consumed before the loop stopped.
\<close>

lemma collector_returns_max_version:
  assumes run: "collect timeoutMs startTime stream closes = (st, rest)"
      and nonempty: "adsListBuffer st \<noteq> []"
  shows "\<exists>consumed.
           stream = consumed @ rest
           \<and> (let r = receiveAdsListWithTimeout timeoutMs startTime stream closes
              in (version r, r) \<in> set (adsListBuffer st)
                 \<and> (\<forall>e \<in> set (adsListBuffer st). fst e \<le> version r)
                 \<and> (\<forall>a \<in> set consumed. version (snd a) \<le> version r)
                 \<and> (\<exists>t. (t, r) \<in> set consumed \<and> t \<le> clock st))"
proof -
  let ?r = "receiveAdsListWithTimeout timeoutMs startTime stream closes"
  let ?b = "adsListBuffer st"
  have inv0: "buffer_inv \<lparr>adsListBuffer = [], currentAdsList = AdsList_default, clock = startTime\<rparr> []"
    by (rule buffer_invI) simp_all
  from run have "receive_loop timeoutMs startTime
       \<lparr>adsListBuffer = [], currentAdsList = AdsList_default, clock = startTime\<rparr> stream closes = (st, rest)"
    by (simp add: collect_def)
  from receive_loop_inv [OF this inv0] obtain consumed where
    split: "stream = consumed @ rest" and inv: "buffer_inv st consumed" by auto
  note s = buffer_inv_sorted [OF inv] and e = buffer_inv_entries [OF inv]
    and a = buffer_inv_keys [OF inv]
  have r: "?r = snd (last ?b)"
    using run nonempty by (simp add: receiveAdsListWithTimeout_def)
  have mem: "last ?b \<in> set ?b" using nonempty by simp
  with e have key: "fst (last ?b) = version ?r" and arr: "\<exists>t. (t, ?r) \<in> set consumed \<and> t \<le> clock st"
    by (simp_all add: r)
  have 1: "(version ?r, ?r) \<in> set ?b"
    using mem key r by (metis prod.collapse)
  have 2: "\<forall>e \<in> set ?b. fst e \<le> version ?r"
    using last_is_max [OF s] key by simp
  have 3: "\<forall>x \<in> set consumed. version (snd x) \<le> version ?r"
  proof
    fix x assume "x \<in> set consumed"
    with a have "version (snd x) \<in> fst ` set ?b" by blast
    then obtain e where "e \<in> set ?b" and "version (snd x) = fst e" by blast
    with 2 show "version (snd x) \<le> version ?r" by simp
  qed
  show ?thesis
    using split 1 2 3 arr by (auto simp: Let_def)
qed


text \<open>Version 2 read before version 1: version 2 is returned.\<close>

lemma version_2_before_version_1:
  "receiveAdsListWithTimeout 30 0
     [(10, \<lparr>version = 2, ads = []\<rparr>), (20, \<lparr>version = 1, ads = []\<rparr>)] 25
   = \<lparr>version = 2, ads = []\<rparr>"
  by (simp add: receiveAdsListWithTimeout_def collect_def)

text \<open>
  C1.  The collector is to return the greatest version that had arrived when the cutover
  deadline passed, never a version whose message arrived after it.  The loop tests the
  deadline only before it issues a \<open>Read\<close>, and \<open>Read\<close> blocks until the next message
  arrives, so the message that ends a \<open>Read\<close> begun before the deadline is buffered
  however late it comes.  With a timeout of 60 ms and the three versions of one session
  arriving 5, 55 and 110 ms after the start, the test at 55 ms lets the next \<open>Read\<close>
  begin, version 3 is buffered at 110 ms, and version 3 is returned: a message that
  arrived 50 ms after the deadline, where version 2 was the greatest version that had
  arrived in time.
\<close>

theorem C1_version_arriving_after_deadline_is_returned:
  "receiveAdsListWithTimeout 60 0
     [(5, generateAds demo_lib coffee_plain 1),
      (55, generateAds demo_lib coffee_beans 2),
      (110, generateAds demo_lib coffee_beans 3)] 170
     = generateAds demo_lib coffee_beans 3
   \<and> version (generateAds demo_lib coffee_beans 3) = 3
   \<and> clock (fst (collect 60 0
         [(5, generateAds demo_lib coffee_plain 1),
          (55, generateAds demo_lib coffee_beans 2),
          (110, generateAds demo_lib coffee_beans 3)] 170)) = 110"
  by (simp add: receiveAdsListWithTimeout_def collect_def version_generateAds)

text \<open>
  With an empty buffer at the moment the loop stops the collector returns a
  default-constructed \<open>AdsList\<close>, version 0 and no ads, as an ordinary return value.  By
  \<open>collect_empty_iff\<close> that happens, for a positive timeout, only when the stream ends
  without a single message.
\<close>

lemma empty_buffer_gives_default:
  "adsListBuffer (fst (collect timeoutMs startTime stream closes)) = [] \<Longrightarrow>
     receiveAdsListWithTimeout timeoutMs startTime stream closes = \<lparr>version = 0, ads = []\<rparr>"
  by (simp add: receiveAdsListWithTimeout_def AdsList_default_def)

text \<open>
  C3.  When no \<open>AdsList\<close> has arrived by the cutover deadline the collector is to return
  the empty result, version 0 and no ads.  The first \<open>Read\<close> is issued at the start and
  blocks past the deadline: with a timeout of 30 ms and the first message arriving at
  40 ms, the buffer is empty when the deadline passes, yet the collector returns that
  message, version 1, and not the empty result.
\<close>

theorem C3_first_message_after_deadline_is_returned:
  "receiveAdsListWithTimeout 30 0 [(40, generateAds demo_lib coffee_plain 1)] 100
     = generateAds demo_lib coffee_plain 1
   \<and> version (generateAds demo_lib coffee_plain 1) = 1
   \<and> generateAds demo_lib coffee_plain 1 \<noteq> \<lparr>version = 0, ads = []\<rparr>"
proof -
  have "version (generateAds demo_lib coffee_plain 1) = 1" by (simp add: version_generateAds)
  moreover from this have "generateAds demo_lib coffee_plain 1 \<noteq> \<lparr>version = 0, ads = []\<rparr>"
    by (metis AdsList.select_convs(1) zero_neq_one)
  ultimately show ?thesis
    by (simp add: receiveAdsListWithTimeout_def collect_def)
qed

text \<open>
  C8.  Assigning the same (version, \<open>AdsList\<close>) pair twice leaves the buffer exactly as
  assigning it once; a second assignment to a key replaces the value of the first (last
  write wins); and after an assignment the key is bound to the new value while every
  other key keeps its binding.
\<close>

theorem C8_map_assign_idempotent_overwrite:
  fixes b :: "(32 word \<times> AdsList) list"
  shows "map_assign k v (map_assign k v b) = map_assign k v b
         \<and> map_assign k v' (map_assign k v b) = map_assign k v' b
         \<and> map_of (map_assign k v b) = (map_of b)(k \<mapsto> v)"
  by (simp add: map_assign_twice map_of_map_assign)

section \<open>Claims about the generator\<close>

text \<open>
  C6.  For every Context and version, and whatever the library's hash, random draws and
  double arithmetic return, every score of the generated \<open>AdsList\<close> is a finite double
  between 0 and 1 inclusive: the last operation on a score is the clamp
  \<open>std::max(0.0, std::min(1.0, score))\<close>, which maps every double, NaN and the
  infinities included, into that range.
\<close>

theorem C6_scores_in_unit_interval:
  "\<forall>ad \<in> set (ads (generateAds L c v)). \<exists>r. score ad = Finite r \<and> 0 \<le> r \<and> r \<le> 1"
  using score_ads_loop by (auto simp: ads_generateAds)

theorem C6_scores_in_unit_interval_witness:
  "ads (generateAds demo_lib coffee_beans 2) \<noteq> []
   \<and> (\<exists>r. score (hd (ads (generateAds demo_lib coffee_beans 2))) = Finite r \<and> 0 \<le> r \<and> r \<le> 1)"
proof -
  let ?n = "fst (uniform_int_distribution demo_lib 5 10
      (mt19937 demo_lib (hasher demo_lib (query coffee_beans @ Context.asin_id coffee_beans @ to_string 2))))"
  have "length (ads (generateAds demo_lib coffee_beans 2)) = nat ?n"
    by (simp only: ads_generateAds length_ads_loop diff_zero)
  moreover have "5 \<le> ?n" using demo_count by blast
  ultimately have ne: "ads (generateAds demo_lib coffee_beans 2) \<noteq> []" by auto
  then have "hd (ads (generateAds demo_lib coffee_beans 2)) \<in> set (ads (generateAds demo_lib coffee_beans 2))"
    by simp
  with C6_scores_in_unit_interval [of demo_lib coffee_beans 2] ne show ?thesis by blast
qed

text \<open>
  C7.  For every Context and version the generated \<open>AdsList\<close> has between 5 and 10 ads,
  given that \<open>std::uniform_int_distribution<>(5, 10)\<close> returns a value in its range, as
  the C++ standard requires.
\<close>

theorem C7_between_5_and_10_ads:
  assumes "\<forall>g. 5 \<le> fst (uniform_int_distribution L 5 10 g) \<and> fst (uniform_int_distribution L 5 10 g) \<le> 10"
  shows "5 \<le> length (ads (generateAds L c v)) \<and> length (ads (generateAds L c v)) \<le> 10"
proof -
  let ?n = "fst (uniform_int_distribution L 5 10
               (mt19937 L (hasher L (query c @ Context.asin_id c @ to_string v))))"
  have "length (ads (generateAds L c v)) = nat ?n"
    by (simp add: ads_generateAds length_ads_loop)
  moreover from assms have "5 \<le> ?n \<and> ?n \<le> 10" by blast
  ultimately show ?thesis by arith
qed

theorem C7_between_5_and_10_ads_witness:
  "(\<forall>g. 5 \<le> fst (uniform_int_distribution demo_lib 5 10 g)
        \<and> fst (uniform_int_distribution demo_lib 5 10 g) \<le> 10)
   \<and> 5 \<le> length (ads (generateAds demo_lib coffee_beans 2))
   \<and> length (ads (generateAds demo_lib coffee_beans 2)) \<le> 10"
proof -
  have h: "\<forall>g. 5 \<le> fst (uniform_int_distribution demo_lib 5 10 g)
        \<and> fst (uniform_int_distribution demo_lib 5 10 g) \<le> 10"
    using demo_count by blast
  from C7_between_5_and_10_ads [OF h, of coffee_beans 2] h show ?thesis by blast
qed

text \<open>
  C10.  The structure of a generated \<open>AdsList\<close> does not depend on the understanding: two
  Contexts with the same query and asin_id give, for the same version, the same number
  of ads, the same asin_ids and the same ad_ids.  Only the scores can differ.
\<close>

theorem C10_structure_ignores_understanding:
  fixes c :: "'a Context_scheme" and c' :: "'b Context_scheme"
  assumes "query c = query c'" and "Context.asin_id c = Context.asin_id c'"
  shows "length (ads (generateAds L c v)) = length (ads (generateAds L c' v))
         \<and> map Ad.asin_id (ads (generateAds L c v)) = map Ad.asin_id (ads (generateAds L c' v))
         \<and> map ad_id (ads (generateAds L c v)) = map ad_id (ads (generateAds L c' v))"
  using assms ids_ads_loop [OF assms(2)]
  by (simp add: ads_generateAds length_ads_loop)

theorem C10_structure_ignores_understanding_witness:
  "query coffee_plain = query coffee_beans
   \<and> Context.asin_id coffee_plain = Context.asin_id coffee_beans
   \<and> understanding coffee_plain \<noteq> understanding coffee_beans
   \<and> length (ads (generateAds demo_lib coffee_plain 1)) = length (ads (generateAds demo_lib coffee_beans 1))
   \<and> map Ad.asin_id (ads (generateAds demo_lib coffee_plain 1))
       = map Ad.asin_id (ads (generateAds demo_lib coffee_beans 1))
   \<and> map ad_id (ads (generateAds demo_lib coffee_plain 1))
       = map ad_id (ads (generateAds demo_lib coffee_beans 1))"
proof -
  have q: "query coffee_plain = query coffee_beans"
    and a: "Context.asin_id coffee_plain = Context.asin_id coffee_beans"
    and u: "understanding coffee_plain \<noteq> understanding coffee_beans"
    by (simp_all add: coffee_plain_def coffee_beans_def)
  from C10_structure_ignores_understanding [OF q a, of demo_lib 1] q a u show ?thesis by blast
qed

section \<open>Claims about the server handler and the sender\<close>

text \<open>
  C9.  In one session the versions the handler and its detached thread hand to \<open>Write\<close>
  form, in order, a prefix of 1, 2, 3: version 1 comes before version 2, version 3 comes
  only after version 2, and no other version is written.  The versions the transport
  accepted are a subsequence of these, in the same order.
\<close>

theorem C9_versions_prefix_of_123:
  "prefix (map version (attempted (snd (GetAds throws L incoming (new_writer f))))) [1, 2, 3]
   \<and> subseq (map version (delivered (snd (GetAds throws L incoming (new_writer f)))))
             (map version (attempted (snd (GetAds throws L incoming (new_writer f)))))"
proof
  show "prefix (map version (attempted (snd (GetAds throws L incoming (new_writer f))))) [1, 2, 3]"
    by (simp add: attempted_def written_GetAds version_generateAds split: list.split)
  show "subseq (map version (delivered (snd (GetAds throws L incoming (new_writer f)))))
             (map version (attempted (snd (GetAds throws L incoming (new_writer f)))))"
    by (rule subseq_map) (rule subseq_delivered)
qed

text \<open>
  C4 (as amended).  On the client, a failed \<open>Write\<close> ends the sender: when the first
  write fails the second Context is never handed to \<open>Write\<close> and \<open>WritesDone\<close> is not
  called; when the second write fails \<open>WritesDone\<close> is not called; \<open>WritesDone\<close> is
  called exactly when both writes succeeded.  On the server the value \<open>Write\<close> returns is
  not inspected: the messages the session hands to \<open>Write\<close> are the same whichever
  writes the transport rejects.
\<close>

theorem C4_sender_stops_at_failed_write:
  "(\<not> f 0 \<longrightarrow>
      attempted (sendContextMessages (new_writer f) q a u)
        = [\<lparr>query = q, asin_id = a, understanding = []\<rparr>]
      \<and> \<not> half_closed (sendContextMessages (new_writer f) q a u))
   \<and> (f 0 \<and> \<not> f 1 \<longrightarrow>
      attempted (sendContextMessages (new_writer f) q a u)
        = [\<lparr>query = q, asin_id = a, understanding = []\<rparr>,
           \<lparr>query = q, asin_id = a, understanding = u\<rparr>]
      \<and> \<not> half_closed (sendContextMessages (new_writer f) q a u))
   \<and> (half_closed (sendContextMessages (new_writer f) q a u) \<longleftrightarrow> f 0 \<and> f 1)
   \<and> attempted (snd (GetAds throws L incoming (new_writer g)))
        = attempted (snd (GetAds throws L incoming (new_writer g')))"
  by (simp add: attempted_def written_sendContextMessages half_closed_sendContextMessages
        written_GetAds split: list.split)

theorem C4_sender_stops_at_failed_write_witness:
  "(\<not> first_rejected 0
    \<and> attempted (sendContextMessages (new_writer first_rejected) ''coffee'' ''B01'' ''beans'')
         = [\<lparr>query = ''coffee'', asin_id = ''B01'', understanding = []\<rparr>]
    \<and> \<not> half_closed (sendContextMessages (new_writer first_rejected) ''coffee'' ''B01'' ''beans''))
   \<and> (second_rejected 0 \<and> \<not> second_rejected 1
    \<and> attempted (sendContextMessages (new_writer second_rejected) ''coffee'' ''B01'' ''beans'')
         = [\<lparr>query = ''coffee'', asin_id = ''B01'', understanding = []\<rparr>,
            \<lparr>query = ''coffee'', asin_id = ''B01'', understanding = ''beans''\<rparr>]
    \<and> \<not> half_closed (sendContextMessages (new_writer second_rejected) ''coffee'' ''B01'' ''beans''))"
  using
    C4_sender_stops_at_failed_write [of first_rejected "''coffee''" "''B01''" "''beans''"
      no_throw demo_lib "[]" all_accepted all_accepted]
    C4_sender_stops_at_failed_write [of second_rejected "''coffee''" "''B01''" "''beans''"
      no_throw demo_lib "[]" all_accepted all_accepted]
  by (simp add: first_rejected_def second_rejected_def)

text \<open>
  The claim as first stated also asks the server to abort the remaining sends after a
  failed write.  Here the write of version 1 is rejected, and versions 2 and 3 are still
  written and accepted.
\<close>

theorem C4_sender_stops_at_failed_write_counterexample:
  "map snd (written (snd (GetAds no_throw demo_lib [coffee_plain, coffee_beans]
                            (new_writer first_rejected))))
     = [False, True, True]
   \<and> map version (delivered (snd (GetAds no_throw demo_lib [coffee_plain, coffee_beans]
                            (new_writer first_rejected))))
     = [2, 3]"
  by (simp add: written_GetAds delivered_def no_throw_def first_rejected_def version_generateAds)

text \<open>
  C2 (as amended).  The handler generates version 1 from the first Context exactly as it
  was received, understanding included, and with version 1.  The first Context the client
  sender writes has an empty understanding whatever understanding the caller passed.
  Hence, in a session fed by this sender, version 1 is generated from an empty
  understanding.
\<close>

theorem C2_version1_uses_received_context:
  "(\<not> throws 1 \<longrightarrow>
      (\<exists>rest. attempted (snd (GetAds throws L (c # cs) (new_writer f)))
                = generateAds L c 1 # rest))
   \<and> (\<exists>rest. attempted (sendContextMessages (new_writer g) q a u)
                = \<lparr>query = q, asin_id = a, understanding = []\<rparr> # rest)
   \<and> (\<not> throws 1 \<and> g 0 \<longrightarrow>
      (\<exists>rest. attempted (snd (GetAds throws L
                  (delivered (sendContextMessages (new_writer g) q a u)) (new_writer f)))
                = generateAds L \<lparr>query = q, asin_id = a, understanding = []\<rparr> 1 # rest))"
  by (simp add: attempted_def delivered_def written_GetAds written_sendContextMessages
        split: list.split)

theorem C2_version1_uses_received_context_witness:
  "\<not> no_throw 1 \<and> all_accepted 0
   \<and> (\<exists>rest. attempted (snd (GetAds no_throw demo_lib [coffee_beans] (new_writer all_accepted)))
                = generateAds demo_lib coffee_beans 1 # rest)
   \<and> (\<exists>rest. attempted (snd (GetAds no_throw demo_lib
                  (delivered (sendContextMessages (new_writer all_accepted)
                                ''coffee'' ''B01'' ''beans''))
                  (new_writer all_accepted)))
                = generateAds demo_lib
                    \<lparr>query = ''coffee'', asin_id = ''B01'', understanding = []\<rparr> 1 # rest)"
  using C2_version1_uses_received_context [of no_throw demo_lib coffee_beans "[]" all_accepted
          all_accepted "''coffee''" "''B01''" "''beans''"]
  by (simp add: no_throw_def all_accepted_def)

text \<open>
  The claim as first stated has the server force the understanding to empty.  With a first
  Context whose understanding is \<open>beans\<close>, the version-1 \<open>AdsList\<close> the handler writes is
  not the one generated from the same Context with the understanding emptied.
\<close>

theorem C2_version1_uses_received_context_counterexample:
  "attempted (snd (GetAds no_throw demo_lib [coffee_beans] (new_writer all_accepted)))
     \<noteq> [generateAds demo_lib (coffee_beans\<lparr>understanding := []\<rparr>) 1]"
proof -
  have e: "coffee_beans\<lparr>understanding := []\<rparr> = coffee_plain"
    by (simp add: coffee_beans_def coffee_plain_def)
  show ?thesis
    using demo_generateAds_differ
    by (simp add: attempted_def written_GetAds no_throw_def e)
qed

end
